theory Spec2Isabelle
  imports Main "HOL-Library.AList"
begin

section \<open>Dynamically typed values\<close>

text \<open>
  The engine works on Go values of type \<^verbatim>\<open>interface{}\<close> and inspects them with
  package \<^verbatim>\<open>reflect\<close>.  The values modelled here are the untyped nil, booleans,
  integers, strings, the \<^verbatim>\<open>Omit\<close> marker (the only value of struct type
  \<^verbatim>\<open>omit\<close>) and maps with element type \<^verbatim>\<open>interface{}\<close> and key type
  \<^verbatim>\<open>string\<close>, \<^verbatim>\<open>interface{}\<close> or \<^verbatim>\<open>int\<close>.  A map is an association list;
  the order of the list is the order in which \<^verbatim>\<open>range\<close> and \<^verbatim>\<open>MapKeys\<close> happen to
  visit the map, which Go leaves unspecified: a statement for all lists covers all orders.
  No arithmetic is done on integers, so they are plain \<open>int\<close>.
\<close>

datatype goType = TBool | TInt | TString | TOmit | TInterface | TMap goType goType

datatype val =
    VNil
  | VBool bool
  | VInt int
  | VString string
  | VOmit
  | VMapStr "(string \<times> val) list"
  | VMapIface "(val \<times> val) list"
  | VMapInt "(int \<times> val) list"

datatype Kind = Invalid | KBool | KInt | KString | KStruct | KInterface | KMap

text \<open>\<^verbatim>\<open>reflect.TypeOf\<close>: the dynamic type, none for the nil interface.\<close>

fun TypeOf :: "val \<Rightarrow> goType option" where
  "TypeOf VNil = None"
| "TypeOf (VBool b) = Some TBool"
| "TypeOf (VInt i) = Some TInt"
| "TypeOf (VString s) = Some TString"
| "TypeOf VOmit = Some TOmit"
| "TypeOf (VMapStr m) = Some (TMap TString TInterface)"
| "TypeOf (VMapIface m) = Some (TMap TInterface TInterface)"
| "TypeOf (VMapInt m) = Some (TMap TInt TInterface)"

fun KindOfType :: "goType \<Rightarrow> Kind" where
  "KindOfType TBool = KBool"
| "KindOfType TInt = KInt"
| "KindOfType TString = KString"
| "KindOfType TOmit = KStruct"
| "KindOfType TInterface = KInterface"
| "KindOfType (TMap k e) = KMap"

text \<open>\<^verbatim>\<open>reflect.ValueOf(v).Kind()\<close>; the zero \<^verbatim>\<open>Value\<close> of a nil interface has kind Invalid.\<close>

definition KindOf :: "val \<Rightarrow> Kind" where
  "KindOf v = (case TypeOf v of None \<Rightarrow> Invalid | Some t \<Rightarrow> KindOfType t)"

text \<open>\<^verbatim>\<open>rv.Type().Key()\<close> of a map value (asked of maps only).\<close>

fun Key :: "val \<Rightarrow> goType" where
  "Key (VMapStr m) = TString"
| "Key (VMapInt m) = TInt"
| "Key v = TInterface"

text \<open>\<^verbatim>\<open>rv.MapKeys()\<close>: the keys, each as the interface value it holds, in iteration order.\<close>

fun MapKeys :: "val \<Rightarrow> val list" where
  "MapKeys (VMapStr m) = map (\<lambda>(k, v). VString k) m"
| "MapKeys (VMapIface m) = map fst m"
| "MapKeys (VMapInt m) = map (\<lambda>(k, v). VInt k) m"
| "MapKeys v = []"

text \<open>
  \<^verbatim>\<open>reflect.DeepEqual\<close>: values of different dynamic types differ; two maps of one type
  are equal when they have the same length and every key of the first is a key of the
  second with a deeply equal element; everything else is compared with \<^verbatim>\<open>==\<close>.
\<close>

fun DeepEqual :: "val \<Rightarrow> val \<Rightarrow> bool" where
  "DeepEqual (VMapStr m1) (VMapStr m2) =
     (length m1 = length m2 \<and>
      (\<forall>(k, v1) \<in> set m1. case map_of m2 k of None \<Rightarrow> False | Some v2 \<Rightarrow> DeepEqual v1 v2))"
| "DeepEqual (VMapIface m1) (VMapIface m2) =
     (length m1 = length m2 \<and>
      (\<forall>(k, v1) \<in> set m1. case map_of m2 k of None \<Rightarrow> False | Some v2 \<Rightarrow> DeepEqual v1 v2))"
| "DeepEqual (VMapInt m1) (VMapInt m2) =
     (length m1 = length m2 \<and>
      (\<forall>(k, v1) \<in> set m1. case map_of m2 k of None \<Rightarrow> False | Some v2 \<Rightarrow> DeepEqual v1 v2))"
| "DeepEqual x y = (x = y)"

section \<open>Errors, panics and results\<close>

text \<open>
  The text of a message is not modelled: an error value keeps the arguments of its
  format string.  \<open>GoSyntax c\<close> stands for \<^verbatim>\<open>fmt.Sprintf("%#v", c)\<close>.
\<close>

datatype expected = Lit string | GoSyntax val

text \<open>
  Modelled from the spec: the validation error \<^verbatim>\<open>error_\<close> (here \<open>error_struct\<close>, a
  name cannot end with an underscore), whose declaration is not among the sources.  It is
  built positionally from the expected-shape description, the value received and the path.  The other constructors are the \<^verbatim>\<open>fmt.Errorf\<close> errors
  of \<^verbatim>\<open>Schema.Coerce\<close>, each with the arguments of its format in their order
  (\<^verbatim>\<open>pathAsPrefix(path)\<close> is kept as the path).
\<close>

datatype error =
    error_struct expected val "string list"
  | unknown_key "string list" string val
  | unknown_default_field string
  | should_not_be_specified string string val val
  | requires_value_specified string val string
  | required_field_missing string val string

datatype panic =
    Type_on_zero_Value
  | Interface_on_zero_Value
  | MapIndex_not_assignable
  | nil_Checker
  | missing_selector
  | non_FieldMap_checker

datatype 'a result = Returns 'a | Fails error | Panics panic

section \<open>Checkers\<close>

record Dependency =
  DependsOn :: string
  Value :: val

text \<open>
  \<^verbatim>\<open>Checker\<close> is an interface.  Its implementations in the sources are \<^verbatim>\<open>anyC\<close>,
  \<^verbatim>\<open>constC\<close>, \<^verbatim>\<open>emptyC\<close>, \<^verbatim>\<open>oneOfC\<close>, \<^verbatim>\<open>Schema\<close> and \<^verbatim>\<open>mapSetC\<close>; \<open>externC\<close> is any
  other implementation, given by its \<^verbatim>\<open>Coerce\<close> method.
\<close>

datatype checker =
    anyC
  | constC val
  | emptyC string
  | oneOfC "checker list"
  | SchemaC Schema
  | mapSetC string "Schema list"
  | externC "val \<Rightarrow> string list \<Rightarrow> val result"
and Schema =
  Schema (Checkers: "(string \<times> checker) list")
         (Defaults: "(string \<times> val) list")
         (Dependencies: "(string \<times> Dependency) list")
         (Strict: bool)

section \<open>Reflection on maps\<close>

text \<open>
  \<^verbatim>\<open>rv.MapIndex(key)\<close>: the key must be assignable to the key type of the map, or the
  call panics; a string is assignable to \<^verbatim>\<open>string\<close> and to \<^verbatim>\<open>interface{}\<close>, not to
  \<^verbatim>\<open>int\<close>.  A key that is not in the map gives the zero \<^verbatim>\<open>Value\<close> (\<open>None\<close>).
\<close>

fun MapIndex :: "val \<Rightarrow> val \<Rightarrow> val option result" where
  "MapIndex (VMapStr m) (VString k) = Returns (map_of m k)"
| "MapIndex (VMapIface m) k = Returns (map_of m k)"
| "MapIndex (VMapInt m) (VInt k) = Returns (map_of m k)"
| "MapIndex v k = Panics MapIndex_not_assignable"

text \<open>
  \<^verbatim>\<open>k.String()\<close> on a key taken from \<^verbatim>\<open>MapKeys\<close>: such a \<^verbatim>\<open>Value\<close> has the key type
  of the map as its type.  Only for kind String is the result the string itself; for any
  other kind \<^verbatim>\<open>String\<close> does not panic and returns \<^verbatim>\<open>"<T Value>"\<close> with \<^verbatim>\<open>T\<close> the type.
\<close>

fun String_of :: "goType \<Rightarrow> val \<Rightarrow> string" where
  "String_of TString (VString s) = s"
| "String_of TInterface k = ''<interface {} Value>''"
| "String_of TInt k = ''<int Value>''"
| "String_of t k = ''<invalid Value>''"

text \<open>
  The loop of \<^verbatim>\<open>hasStrictStringKeys\<close> over the keys of an interface-keyed map.
  \<^verbatim>\<open>k.Elem()\<close> of a nil key is the zero \<^verbatim>\<open>Value\<close>, on which \<^verbatim>\<open>Type()\<close> panics.
\<close>

fun stringKeys_loop :: "val list \<Rightarrow> bool result" where
  "stringKeys_loop [] = Returns True"
| "stringKeys_loop (k # ks) =
     (case TypeOf k of
        None \<Rightarrow> Panics Type_on_zero_Value
      | Some t \<Rightarrow> if t \<noteq> TString then Returns False else stringKeys_loop ks)"

definition hasStrictStringKeys :: "val \<Rightarrow> bool result" where
  "hasStrictStringKeys rv =
     (if Key rv = TString then Returns True
      else if KindOfType (Key rv) \<noteq> KInterface then Returns False
      else stringKeys_loop (MapKeys rv))"

section \<open>The passes of Schema.Coerce that call no checker\<close>

text \<open>The strict check: the first key, in iteration order, whose name has no checker.\<close>

fun strict_loop :: "(string \<times> checker) list \<Rightarrow> string list \<Rightarrow> val \<Rightarrow> val list \<Rightarrow> unit result" where
  "strict_loop cs path rv [] = Returns ()"
| "strict_loop cs path rv (k # ks) =
     (let name = String_of (Key rv) k in
      case map_of cs name of
        Some c \<Rightarrow> strict_loop cs path rv ks
      | None \<Rightarrow>
          (case MapIndex rv k of
             Returns (Some x) \<Rightarrow> Fails (unknown_key path name x)
           | Returns None \<Rightarrow> Panics Interface_on_zero_Value
           | Fails e \<Rightarrow> Fails e
           | Panics p \<Rightarrow> Panics p))"

text \<open>
  The \<^verbatim>\<open>switch\<close> at the head of the per-field loop: the value handed to the checker of
  field \<open>name\<close>, or \<open>None\<close> where the loop continues with the next field.  When no case
  applies, \<^verbatim>\<open>value\<close> is still the nil interface and the checker is called on it.
\<close>

definition field_value ::
  "val \<Rightarrow> (string \<times> val) list \<Rightarrow> (string \<times> Dependency) list \<Rightarrow> string \<Rightarrow> val option result" where
  "field_value rv ds deps name =
     (case MapIndex rv (VString name) of
        Panics p \<Rightarrow> Panics p
      | Fails e \<Rightarrow> Fails e
      | Returns (Some valuev) \<Rightarrow> Returns (Some valuev)
      | Returns None \<Rightarrow>
          (case map_of ds name of
             Some dflt \<Rightarrow> if dflt = VOmit then Returns None else Returns (Some dflt)
           | None \<Rightarrow>
               (case map_of deps name of
                  Some d \<Rightarrow> Returns None
                | None \<Rightarrow> Returns (Some VNil))))"

text \<open>One round of the dependency loop: the \<^verbatim>\<open>switch\<close> has no default case.\<close>

definition dependency_check :: "(string \<times> val) list \<Rightarrow> string \<Rightarrow> Dependency \<Rightarrow> error option" where
  "dependency_check out name dep =
     (let depExists = (map_of out (DependsOn dep) \<noteq> None);
          actual = (case map_of out (DependsOn dep) of None \<Rightarrow> VNil | Some a \<Rightarrow> a);
          fieldExists = (map_of out name \<noteq> None);
          equal = DeepEqual actual (Value dep)
      in if \<not> fieldExists \<and> \<not> depExists then None
         else if fieldExists \<and> depExists \<and> equal then None
         else if fieldExists \<and> depExists \<and> \<not> equal then
           Some (should_not_be_specified name (DependsOn dep) actual (Value dep))
         else if fieldExists \<and> \<not> depExists then
           Some (requires_value_specified name (Value dep) (DependsOn dep))
         else if \<not> fieldExists \<and> depExists \<and> equal then
           Some (required_field_missing (DependsOn dep) actual name)
         else None)"

fun dependencies_loop :: "(string \<times> Dependency) list \<Rightarrow> (string \<times> val) list \<Rightarrow> error option" where
  "dependencies_loop [] out = None"
| "dependencies_loop ((name, dep) # rest) out =
     (case dependency_check out name dep of
        Some e \<Rightarrow> Some e
      | None \<Rightarrow> dependencies_loop rest out)"

section \<open>Coerce\<close>

text \<open>
  The \<^verbatim>\<open>Coerce\<close> methods of the six checkers, with their loops as recursive functions:
  \<open>oneOf_loop\<close> is the loop of \<^verbatim>\<open>oneOfC.Coerce\<close>, \<open>fields_loop\<close> the loop over
  \<^verbatim>\<open>s.Checkers\<close>, \<open>defaults_loop\<close> the loop over \<^verbatim>\<open>s.Defaults\<close>, \<open>mapSet_loop\<close> the loop
  over \<^verbatim>\<open>c.fmaps\<close>.  \<open>path @ [''.'', name]\<close> is \<^verbatim>\<open>vpath\<close> after
  \<^verbatim>\<open>vpath[len(vpath)-1] = name\<close>.  A panic of a callee unwinds through every caller.
\<close>

function Coerce :: "checker \<Rightarrow> val \<Rightarrow> string list \<Rightarrow> val result"
  and oneOf_loop :: "checker list \<Rightarrow> val \<Rightarrow> string list \<Rightarrow> val result"
  and Schema_Coerce :: "Schema \<Rightarrow> val \<Rightarrow> string list \<Rightarrow> val result"
  and fields_loop :: "(string \<times> checker) list \<Rightarrow> (string \<times> val) list \<Rightarrow> (string \<times> Dependency) list
      \<Rightarrow> val \<Rightarrow> string list \<Rightarrow> (string \<times> val) list \<Rightarrow> (string \<times> val) list result"
  and defaults_loop :: "(string \<times> val) list \<Rightarrow> (string \<times> checker) list
      \<Rightarrow> val \<Rightarrow> string list \<Rightarrow> (string \<times> val) list \<Rightarrow> (string \<times> val) list result"
  and mapSet_loop :: "string \<Rightarrow> Schema list \<Rightarrow> val \<Rightarrow> val \<Rightarrow> string list \<Rightarrow> val result"
where
  "Coerce anyC v path = Returns v"
| "Coerce (constC c) v path =
     (if DeepEqual v c then Returns v else Fails (error_struct (GoSyntax c) v path))"
| "Coerce (emptyC valueLabel) v path =
     (if DeepEqual v VNil then Returns v
      else Fails (error_struct (Lit (''empty '' @ valueLabel)) v path))"
| "Coerce (oneOfC options) v path = oneOf_loop options v path"
| "Coerce (SchemaC s) v path = Schema_Coerce s v path"
| "Coerce (mapSetC selector fmaps) v path =
     (if KindOf v \<noteq> KMap then Fails (error_struct (Lit ''map'') v path)
      else case MapIndex v (VString selector) of
             Panics p \<Rightarrow> Panics p
           | Fails e \<Rightarrow> Fails e
           | Returns None \<Rightarrow>
               Fails (error_struct (Lit ''supported selector'') VNil (path @ [''.'', selector]))
           | Returns (Some sel) \<Rightarrow> mapSet_loop selector fmaps sel v path)"
| "Coerce (externC f) v path = f v path"
| "oneOf_loop [] v path = Fails (error_struct (Lit []) v path)"
| "oneOf_loop (o1 # options) v path =
     (case Coerce o1 v path of
        Returns newv \<Rightarrow> Returns newv
      | Fails e \<Rightarrow> oneOf_loop options v path
      | Panics p \<Rightarrow> Panics p)"
| "Schema_Coerce (Schema cs ds deps strict) v path =
     (if KindOf v \<noteq> KMap then Fails (error_struct (Lit ''map'') v path)
      else case hasStrictStringKeys v of
             Panics p \<Rightarrow> Panics p
           | Fails e \<Rightarrow> Fails e
           | Returns False \<Rightarrow> Fails (error_struct (Lit ''map[string]'') v path)
           | Returns True \<Rightarrow>
               (case (if strict then strict_loop cs path v (MapKeys v) else Returns ()) of
                  Panics p \<Rightarrow> Panics p
                | Fails e \<Rightarrow> Fails e
                | Returns u \<Rightarrow>
                    (case fields_loop cs ds deps v path [] of
                       Panics p \<Rightarrow> Panics p
                     | Fails e \<Rightarrow> Fails e
                     | Returns out1 \<Rightarrow>
                         (case defaults_loop ds cs v path out1 of
                            Panics p \<Rightarrow> Panics p
                          | Fails e \<Rightarrow> Fails e
                          | Returns out2 \<Rightarrow>
                              (case dependencies_loop deps out2 of
                                 Some e \<Rightarrow> Fails e
                               | None \<Rightarrow> Returns (VMapStr out2))))))"
| "fields_loop [] ds deps v path out = Returns out"
| "fields_loop ((name, c) # rest) ds deps v path out =
     (case field_value v ds deps name of
        Panics p \<Rightarrow> Panics p
      | Fails e \<Rightarrow> Fails e
      | Returns None \<Rightarrow> fields_loop rest ds deps v path out
      | Returns (Some x) \<Rightarrow>
          (case Coerce c x (path @ [''.'', name]) of
             Panics p \<Rightarrow> Panics p
           | Fails e \<Rightarrow> Fails e
           | Returns newv \<Rightarrow> fields_loop rest ds deps v path (AList.update name newv out)))"
| "defaults_loop [] cs v path out = Returns out"
| "defaults_loop ((name, x) # rest) cs v path out =
     (if x = VOmit then defaults_loop rest cs v path out
      else case map_of out name of
             Some y \<Rightarrow> defaults_loop rest cs v path out
           | None \<Rightarrow>
               (case map_of cs name of
                  None \<Rightarrow> Fails (unknown_default_field name)
                | Some c \<Rightarrow>
                    (case Coerce c v (path @ [''.'', name]) of
                       Panics p \<Rightarrow> Panics p
                     | Fails e \<Rightarrow> Fails e
                     | Returns newv \<Rightarrow>
                         defaults_loop rest cs v path (AList.update name newv out))))"
| "mapSet_loop selector [] sel v path =
     Fails (error_struct (Lit ''supported selector'') sel (path @ [''.'', selector]))"
| "mapSet_loop selector (fmap # fmaps) sel v path =
     (case map_of (Checkers fmap) selector of
        None \<Rightarrow> Panics nil_Checker
      | Some c \<Rightarrow>
          (case Coerce c sel path of
             Panics p \<Rightarrow> Panics p
           | Fails e \<Rightarrow> mapSet_loop selector fmaps sel v path
           | Returns newv \<Rightarrow> Schema_Coerce fmap v path))"
  by pat_completeness auto

termination
proof -
  have map_of_size: "size c \<le> size_list (size_prod (\<lambda>_. 0) size) cs"
    if "map_of cs k = Some c" for cs :: "(string \<times> checker) list" and k c
    using that by (induction cs) (auto split: if_splits)
  have Checkers_size: "size c < size fmap"
    if "map_of (Checkers fmap) k = Some c" for fmap k c
    using that by (cases fmap) (auto dest: map_of_size)
  show ?thesis
    apply (relation "inv_image (less_than <*lex*> less_than) (\<lambda>x. case x of
        Inl (Inl (c, v, p)) \<Rightarrow> (2 * size c, 0::nat)
      | Inl (Inr (Inl (cs, v, p))) \<Rightarrow> (2 * size_list size cs, 0)
      | Inl (Inr (Inr (s, v, p))) \<Rightarrow> (2 * size s, 0)
      | Inr (Inl (cs, ds, deps, v, p, out)) \<Rightarrow>
          (2 * size_list (size_prod (\<lambda>_. 0) size) cs, 0)
      | Inr (Inr (Inl (ds, cs, v, p, out))) \<Rightarrow>
          (2 * size_list (size_prod (\<lambda>_. 0) size) cs + 1, length ds)
      | Inr (Inr (Inr (sel, fmaps, x, v, p))) \<Rightarrow> (2 * size_list size fmaps, 0))")
    apply (auto dest: map_of_size Checkers_size)
    done
qed

section \<open>Constructors\<close>

definition Omit :: val where
  "Omit = VOmit"

definition Any :: checker where
  "Any = anyC"

definition Const :: "val \<Rightarrow> checker" where
  "Const v = constC v"

definition Empty :: "string \<Rightarrow> checker" where
  "Empty valueLabel = emptyC (if valueLabel = [] then ''value'' else valueLabel)"

definition OneOf :: "checker list \<Rightarrow> checker" where
  "OneOf options = oneOfC options"

definition FieldMap :: "(string \<times> checker) list \<Rightarrow> (string \<times> val) list \<Rightarrow> checker" where
  "FieldMap checkers defaults = SchemaC (Schema checkers defaults [] False)"

definition StrictFieldMap :: "(string \<times> checker) list \<Rightarrow> (string \<times> val) list \<Rightarrow> checker" where
  "StrictFieldMap checkers defaults = SchemaC (Schema checkers defaults [] True)"

text \<open>
  \<^verbatim>\<open>FieldMapSet\<close> panics on a checker that is not a \<^verbatim>\<open>Schema\<close> and on a \<^verbatim>\<open>Schema\<close>
  without a checker for the selector.
\<close>

fun FieldMapSet_loop :: "string \<Rightarrow> checker list \<Rightarrow> Schema list result" where
  "FieldMapSet_loop selector [] = Returns []"
| "FieldMapSet_loop selector (SchemaC fmap # maps) =
     (case map_of (Checkers fmap) selector of
        None \<Rightarrow> Panics missing_selector
      | Some c \<Rightarrow>
          (case FieldMapSet_loop selector maps of
             Returns fmaps \<Rightarrow> Returns (fmap # fmaps)
           | Fails e \<Rightarrow> Fails e
           | Panics p \<Rightarrow> Panics p))"
| "FieldMapSet_loop selector (m # maps) = Panics non_FieldMap_checker"

definition FieldMapSet :: "string \<Rightarrow> checker list \<Rightarrow> checker result" where
  "FieldMapSet selector maps =
     (case FieldMapSet_loop selector maps of
        Returns fmaps \<Rightarrow> Returns (mapSetC selector fmaps)
      | Fails e \<Rightarrow> Fails e
      | Panics p \<Rightarrow> Panics p)"

section \<open>Example schemas\<close>

text \<open>
  The schema of the dependency example: field "b" depends on field "a" having the value
  \<^verbatim>\<open>true\<close>; both fields are checked by \<^verbatim>\<open>Any()\<close>.
\<close>

definition dep_schema :: Schema where
  "dep_schema = Schema [(''a'', Any), (''b'', Any)] []
     [(''b'', \<lparr>DependsOn = ''a'', Value = VBool True\<rparr>)] False"

section \<open>The default pass without its coercion branch\<close>

text \<open>
  The variant of the pass over \<^verbatim>\<open>s.Defaults\<close> that the specification compares with: it
  only raises the error for a default, other than \<^verbatim>\<open>Omit\<close>, of a field that is not in the
  output and has no checker; it calls no checker and leaves the output as it is.
  \<open>Schema_Coerce_no_backfill\<close> is \<^verbatim>\<open>Schema.Coerce\<close> with that pass in place of
  \<open>defaults_loop\<close>, and nothing else changed.
\<close>

fun defaults_check ::
  "(string \<times> val) list \<Rightarrow> (string \<times> checker) list \<Rightarrow> (string \<times> val) list
    \<Rightarrow> (string \<times> val) list result" where
  "defaults_check [] cs out = Returns out"
| "defaults_check ((name, x) # rest) cs out =
     (if x = VOmit then defaults_check rest cs out
      else case map_of out name of
             Some y \<Rightarrow> defaults_check rest cs out
           | None \<Rightarrow>
               (case map_of cs name of
                  None \<Rightarrow> Fails (unknown_default_field name)
                | Some c \<Rightarrow> defaults_check rest cs out))"

fun Schema_Coerce_no_backfill :: "Schema \<Rightarrow> val \<Rightarrow> string list \<Rightarrow> val result" where
  "Schema_Coerce_no_backfill (Schema cs ds deps strict) v path =
     (if KindOf v \<noteq> KMap then Fails (error_struct (Lit ''map'') v path)
      else case hasStrictStringKeys v of
             Panics p \<Rightarrow> Panics p
           | Fails e \<Rightarrow> Fails e
           | Returns False \<Rightarrow> Fails (error_struct (Lit ''map[string]'') v path)
           | Returns True \<Rightarrow>
               (case (if strict then strict_loop cs path v (MapKeys v) else Returns ()) of
                  Panics p \<Rightarrow> Panics p
                | Fails e \<Rightarrow> Fails e
                | Returns u \<Rightarrow>
                    (case fields_loop cs ds deps v path [] of
                       Panics p \<Rightarrow> Panics p
                     | Fails e \<Rightarrow> Fails e
                     | Returns out1 \<Rightarrow>
                         (case defaults_check ds cs out1 of
                            Panics p \<Rightarrow> Panics p
                          | Fails e \<Rightarrow> Fails e
                          | Returns out2 \<Rightarrow>
                              (case dependencies_loop deps out2 of
                                 Some e \<Rightarrow> Fails e
                               | None \<Rightarrow> Returns (VMapStr out2))))))"

section \<open>Checkers with a stable output\<close>

text \<open>
  \<open>passes_through c\<close>: \<open>c\<close> is built from \<^verbatim>\<open>Any\<close>, \<^verbatim>\<open>Const\<close>, \<^verbatim>\<open>Empty\<close> and \<^verbatim>\<open>OneOf\<close> only;
  such a checker returns its input when it succeeds.  \<open>stable c\<close>: \<open>c\<close> is built from
  \<^verbatim>\<open>Any\<close>, \<^verbatim>\<open>Const\<close>, \<^verbatim>\<open>Empty\<close>, \<^verbatim>\<open>Schema\<close> values (whose maps have distinct keys),
  \<^verbatim>\<open>OneOf\<close> over alternatives that pass through, and \<^verbatim>\<open>mapSetC\<close> over stable schemas whose
  selector checkers pass through.
\<close>

fun passes_through :: "checker \<Rightarrow> bool" where
  "passes_through anyC = True"
| "passes_through (constC c) = True"
| "passes_through (emptyC l) = True"
| "passes_through (oneOfC options) = (\<forall>c \<in> set options. passes_through c)"
| "passes_through (SchemaC s) = False"
| "passes_through (mapSetC selector fmaps) = False"
| "passes_through (externC f) = False"

fun stable :: "checker \<Rightarrow> bool" and stable_schema :: "Schema \<Rightarrow> bool" where
  "stable anyC = True"
| "stable (constC c) = True"
| "stable (emptyC l) = True"
| "stable (oneOfC options) = (\<forall>c \<in> set options. passes_through c)"
| "stable (SchemaC s) = stable_schema s"
| "stable (mapSetC selector fmaps) =
     (\<forall>f \<in> set fmaps. stable_schema f \<and>
        (case map_of (Checkers f) selector of None \<Rightarrow> False | Some c \<Rightarrow> passes_through c))"
| "stable (externC f) = False"
| "stable_schema (Schema cs ds deps strict) =
     (distinct (map fst cs) \<and> distinct (map fst ds) \<and> (\<forall>(n, c) \<in> set cs. stable c))"

section \<open>Properties\<close>

subsection \<open>OneOf\<close>

lemma oneOf_loop_skip_failing:
  "(\<forall>c \<in> set pre. \<exists>e. Coerce c v p = Fails e) \<Longrightarrow>
   oneOf_loop (pre @ rest) v p = oneOf_loop rest v p"
  by (induction pre) auto

lemma oneOf_loop_Fails:
  "oneOf_loop opts v p = Fails e \<Longrightarrow> e = error_struct (Lit []) v p"
  by (induction opts) (auto split: result.splits)

text \<open>
  Claim C4.  \<^verbatim>\<open>OneOf(list).Coerce(v, p)\<close> returns the result of the first checker of
  the list that succeeds on \<open>(v, p)\<close>, the checkers before it having failed, whatever
  the checkers after it are (they are not called: one that would panic changes nothing);
  when every checker fails, and when the list is empty, it fails at path \<open>p\<close> with
  value \<open>v\<close> and an empty expected description.  \<^verbatim>\<open>OneOf(Const(1), Const(2))\<close>
  returns 2 on 2 and fails on 3.
\<close>

theorem OneOf_first_success:
  "((\<forall>c \<in> set pre. \<exists>e. Coerce c v p = Fails e) \<and> Coerce c v p = Returns w
      \<longrightarrow> Coerce (OneOf (pre @ c # post)) v p = Returns w)
   \<and> ((\<forall>c \<in> set opts. \<exists>e. Coerce c v p = Fails e)
      \<longrightarrow> Coerce (OneOf opts) v p = Fails (error_struct (Lit []) v p))
   \<and> Coerce (OneOf []) v p = Fails (error_struct (Lit []) v p)
   \<and> Coerce (OneOf [Const (VInt 1), Const (VInt 2)]) (VInt 2) p = Returns (VInt 2)
   \<and> Coerce (OneOf [Const (VInt 1), Const (VInt 2)]) (VInt 3) p
       = Fails (error_struct (Lit []) (VInt 3) p)"
proof (intro conjI impI)
  assume h: "(\<forall>c \<in> set pre. \<exists>e. Coerce c v p = Fails e) \<and> Coerce c v p = Returns w"
  then have "oneOf_loop (pre @ c # post) v p = oneOf_loop (c # post) v p"
    by (intro oneOf_loop_skip_failing) simp
  with h show "Coerce (OneOf (pre @ c # post)) v p = Returns w"
    by (simp add: OneOf_def)
next
  assume "\<forall>c \<in> set opts. \<exists>e. Coerce c v p = Fails e"
  then have "oneOf_loop (opts @ []) v p = oneOf_loop [] v p"
    by (rule oneOf_loop_skip_failing)
  then show "Coerce (OneOf opts) v p = Fails (error_struct (Lit []) v p)"
    by (simp add: OneOf_def)
qed (simp_all add: OneOf_def Const_def)

theorem OneOf_first_success_witness:
  "Coerce (Const (VInt 1)) (VInt 2) [''p'']
       = Fails (error_struct (GoSyntax (VInt 1)) (VInt 2) [''p''])
   \<and> Coerce (Const (VInt 2)) (VInt 2) [''p''] = Returns (VInt 2)
   \<and> Coerce (OneOf ([Const (VInt 1)] @ Const (VInt 2) # [externC (\<lambda>v p. Panics nil_Checker)]))
        (VInt 2) [''p''] = Returns (VInt 2)
   \<and> Coerce (Empty []) (VInt 2) [''p'']
       = Fails (error_struct (Lit ''empty value'') (VInt 2) [''p''])
   \<and> Coerce (OneOf [Const (VInt 1), Empty []]) (VInt 2) [''p'']
       = Fails (error_struct (Lit []) (VInt 2) [''p''])"
  using OneOf_first_success [of "[Const (VInt 1)]" "VInt 2" "[''p'']" "Const (VInt 2)" "VInt 2"
      "[externC (\<lambda>v p. Panics nil_Checker)]" "[Const (VInt 1), Empty []]"]
  by (simp add: Const_def Empty_def)

text \<open>
  Claim C8, as stated, fails.  A \<^verbatim>\<open>FieldMap\<close> whose defaults name a field without a
  checker fails with the error "got default value for unknown field"; inside \<^verbatim>\<open>OneOf\<close>
  that error is dropped: the next alternative is tried and its result returned, and with
  no other alternative the generic failure of \<^verbatim>\<open>OneOf\<close> takes its place.
\<close>

theorem OneOf_swallows_error_counterexample:
  "Coerce (FieldMap [] [(''x'', VInt 1)]) (VMapStr []) [] = Fails (unknown_default_field ''x'')
   \<and> Coerce (OneOf [FieldMap [] [(''x'', VInt 1)], Any]) (VMapStr []) [] = Returns (VMapStr [])
   \<and> Coerce (OneOf [FieldMap [] [(''x'', VInt 1)]]) (VMapStr []) []
       = Fails (error_struct (Lit []) (VMapStr []) [])"
  by (simp add: FieldMap_def OneOf_def Any_def KindOf_def hasStrictStringKeys_def)

text \<open>
  Claim C8, amended.  \<^verbatim>\<open>OneOf\<close> discards the error of every alternative that fails,
  of whatever kind: it goes on with the remaining alternatives, and the only error it
  returns itself is its generic failure at path \<open>p\<close> with value \<open>v\<close>.
\<close>

theorem OneOf_discards_every_error:
  "(Coerce c v p = Fails e \<longrightarrow> Coerce (OneOf (c # cs)) v p = Coerce (OneOf cs) v p)
   \<and> (Coerce (OneOf opts) v p = Fails e' \<longrightarrow> e' = error_struct (Lit []) v p)"
  by (auto simp: OneOf_def dest: oneOf_loop_Fails)

theorem OneOf_discards_every_error_witness:
  "Coerce (FieldMap [] [(''x'', VInt 1)]) (VMapStr []) [] = Fails (unknown_default_field ''x'')
   \<and> Coerce (OneOf [FieldMap [] [(''x'', VInt 1)], Any]) (VMapStr []) []
       = Coerce (OneOf [Any]) (VMapStr []) []
   \<and> Coerce (OneOf [FieldMap [] [(''x'', VInt 1)]]) (VMapStr []) []
       = Fails (error_struct (Lit []) (VMapStr []) [])"
  using OneOf_discards_every_error [of "FieldMap [] [(''x'', VInt 1)]" "VMapStr []" "[]"
      "unknown_default_field ''x''" "[Any]" "[FieldMap [] [(''x'', VInt 1)]]"
      "error_struct (Lit []) (VMapStr []) []"]
  by (simp add: FieldMap_def OneOf_def Any_def KindOf_def hasStrictStringKeys_def)

subsection \<open>FieldMapSet\<close>

text \<open>
  Claim C10.  On a map whose key type is neither \<^verbatim>\<open>string\<close> nor an interface type,
  \<^verbatim>\<open>mapSetC.Coerce\<close> returns no error: the map passes the kind check and the lookup of
  the selector, a string, panics.  \<^verbatim>\<open>Schema.Coerce\<close> rejects the same map with the
  error expecting "map[string]".
\<close>

theorem mapSetC_panics_on_other_key_type:
  assumes "KindOf v = KMap" and "Key v \<noteq> TString" and "KindOfType (Key v) \<noteq> KInterface"
  shows "Coerce (mapSetC selector fmaps) v p = Panics MapIndex_not_assignable
    \<and> (\<forall>maps c. FieldMapSet selector maps = Returns c
          \<longrightarrow> Coerce c v p = Panics MapIndex_not_assignable)
    \<and> Schema_Coerce s v p = Fails (error_struct (Lit ''map[string]'') v p)"
proof -
  from assms obtain m where v: "v = VMapInt m"
    by (cases v) (auto simp: KindOf_def)
  have 1: "Coerce (mapSetC sel fs) v p = Panics MapIndex_not_assignable" for sel fs
    by (simp add: v KindOf_def)
  have 2: "Schema_Coerce s v p = Fails (error_struct (Lit ''map[string]'') v p)"
    by (cases s) (simp add: v KindOf_def hasStrictStringKeys_def)
  show ?thesis
    using 1 2 by (auto simp: FieldMapSet_def split: result.splits)
qed

theorem mapSetC_panics_on_other_key_type_witness:
  "KindOf (VMapInt [(1, VInt 1)]) = KMap \<and> Key (VMapInt [(1, VInt 1)]) \<noteq> TString
   \<and> KindOfType (Key (VMapInt [(1, VInt 1)])) \<noteq> KInterface
   \<and> Coerce (mapSetC ''kind'' [Schema [(''kind'', anyC)] [] [] False]) (VMapInt [(1, VInt 1)]) []
       = Panics MapIndex_not_assignable"
  using mapSetC_panics_on_other_key_type [of "VMapInt [(1, VInt 1)]" "''kind''"
      "[Schema [(''kind'', anyC)] [] [] False]" "[]"]
  by (simp add: KindOf_def)

subsection \<open>The shape check of Schema.Coerce\<close>

lemma TypeOf_None: "TypeOf k = None \<longleftrightarrow> k = VNil"
  by (cases k) auto

lemma stringKeys_loop_False:
  "VNil \<notin> set ks \<Longrightarrow> \<exists>k \<in> set ks. TypeOf k \<noteq> Some TString \<Longrightarrow> stringKeys_loop ks = Returns False"
  by (induction ks) (auto simp: TypeOf_None split: option.splits)

lemma stringKeys_loop_True:
  "\<forall>k \<in> set ks. TypeOf k = Some TString \<Longrightarrow> stringKeys_loop ks = Returns True"
  by (induction ks) (auto split: option.splits)

lemma Schema_Coerce_shape_check:
  "(KindOf v \<noteq> KMap \<longrightarrow> Schema_Coerce s v p = Fails (error_struct (Lit ''map'') v p))
   \<and> (KindOf v = KMap \<and> Key v \<noteq> TString \<and> KindOfType (Key v) \<noteq> KInterface
        \<longrightarrow> Schema_Coerce s v p = Fails (error_struct (Lit ''map[string]'') v p))
   \<and> (KindOf v = KMap \<and> KindOfType (Key v) = KInterface \<and> VNil \<notin> set (MapKeys v)
        \<and> (\<exists>k \<in> set (MapKeys v). TypeOf k \<noteq> Some TString)
        \<longrightarrow> Schema_Coerce s v p = Fails (error_struct (Lit ''map[string]'') v p))"
proof -
  obtain cs ds deps strict where s: "s = Schema cs ds deps strict"
    by (cases s)
  show ?thesis
    unfolding s
    by (auto simp: hasStrictStringKeys_def stringKeys_loop_False)
qed

text \<open>
  Claim C6.  The lemma above is the claim on every input but one kind: a value that is
  not a map fails expecting "map", a map with another key type than \<^verbatim>\<open>string\<close> and
  \<^verbatim>\<open>interface{}\<close> fails expecting "map[string]", and so does an interface-keyed map
  with a key that is not a string, provided no key is nil; all this before the strict
  check and the per-field loop.  On an interface-keyed map with a nil key, whose runtime
  value is not a string either, \<^verbatim>\<open>hasStrictStringKeys\<close> panics instead: \<^verbatim>\<open>k.Elem()\<close> is
  the zero \<^verbatim>\<open>Value\<close> and \<^verbatim>\<open>Type()\<close> is called on it.
\<close>

theorem Schema_Coerce_nil_key_panics:
  "KindOf (VMapIface [(VNil, VInt 1)]) = KMap
   \<and> Key (VMapIface [(VNil, VInt 1)]) = TInterface
   \<and> Schema_Coerce s (VMapIface [(VNil, VInt 1)]) p = Panics Type_on_zero_Value"
  by (cases s) (simp add: KindOf_def hasStrictStringKeys_def)

subsection \<open>The strict check\<close>

lemma strict_loop_known_keys:
  "\<forall>k \<in> set ks. map_of cs k \<noteq> None \<Longrightarrow>
   strict_loop cs p (VMapStr m) (map VString ks) = Returns ()"
  by (induction ks) auto

lemma strict_loop_unknown_key:
  "set ks \<subseteq> fst ` set m \<Longrightarrow> \<exists>k \<in> set ks. map_of cs k = None \<Longrightarrow>
   \<exists>k x. k \<in> set ks \<and> map_of cs k = None \<and> map_of m k = Some x
     \<and> strict_loop cs p (VMapStr m) (map VString ks) = Fails (unknown_key p k x)"
proof (induction ks)
  case Nil
  then show ?case by simp
next
  case (Cons k ks)
  then have "k \<in> fst ` set m" by simp
  then have "map_of m k \<noteq> None" by (simp add: map_of_eq_None_iff)
  then obtain x where x: "map_of m k = Some x" by blast
  show ?case
  proof (cases "map_of cs k")
    case None
    then show ?thesis using x by auto
  next
    case (Some c)
    with Cons.prems have "\<exists>k \<in> set ks. map_of cs k = None" by auto
    with Cons have "\<exists>k x. k \<in> set ks \<and> map_of cs k = None \<and> map_of m k = Some x
        \<and> strict_loop cs p (VMapStr m) (map VString ks) = Fails (unknown_key p k x)"
      by simp
    then show ?thesis using Some by auto
  qed
qed

lemma MapKeys_VMapStr: "MapKeys (VMapStr m) = map VString (map fst m)"
  by (simp add: case_prod_unfold comp_def)

lemma Schema_Coerce_strict_string_keys:
  "((\<exists>k \<in> fst ` set m. map_of cs k = None) \<longrightarrow>
      (\<exists>k x. map_of cs k = None \<and> map_of m k = Some x
         \<and> Schema_Coerce (Schema cs ds deps True) (VMapStr m) p = Fails (unknown_key p k x)))
   \<and> ((\<forall>k \<in> fst ` set m. map_of cs k \<noteq> None) \<longrightarrow>
        strict_loop cs p (VMapStr m) (MapKeys (VMapStr m)) = Returns ())"
proof (intro conjI impI)
  have head: "Schema_Coerce (Schema cs ds deps True) (VMapStr m) p = Fails e"
    if "strict_loop cs p (VMapStr m) (map VString (map fst m)) = Fails e" for e
    using that by (simp add: KindOf_def hasStrictStringKeys_def MapKeys_VMapStr del: MapKeys.simps)
  assume "\<exists>k \<in> fst ` set m. map_of cs k = None"
  then have "\<exists>k \<in> set (map fst m). map_of cs k = None" by simp
  with strict_loop_unknown_key [of "map fst m" m cs p]
  obtain k x where "map_of cs k = None" "map_of m k = Some x"
    "strict_loop cs p (VMapStr m) (map VString (map fst m)) = Fails (unknown_key p k x)"
    by auto
  with head show "\<exists>k x. map_of cs k = None \<and> map_of m k = Some x
         \<and> Schema_Coerce (Schema cs ds deps True) (VMapStr m) p = Fails (unknown_key p k x)"
    by blast
next
  assume "\<forall>k \<in> fst ` set m. map_of cs k \<noteq> None"
  then have "\<forall>k \<in> set (map fst m). map_of cs k \<noteq> None" by simp
  then show "strict_loop cs p (VMapStr m) (MapKeys (VMapStr m)) = Returns ()"
    unfolding MapKeys_VMapStr by (rule strict_loop_known_keys)
qed

text \<open>
  Claim C5.  On a map with key type \<^verbatim>\<open>string\<close> the claim holds (lemma above): a strict
  \<^verbatim>\<open>Schema\<close> fails with an unknown-key error naming a key without checker and its value
  exactly when there is such a key, before any field is coerced.  On a map with key type
  \<^verbatim>\<open>interface{}\<close>, which passes the shape check when its keys are strings, the name
  looked up is \<^verbatim>\<open>k.String()\<close> of a \<^verbatim>\<open>Value\<close> of kind Interface, that is the text
  \<^verbatim>\<open><interface {} Value>\<close>: the key "a" is reported as unknown although it has a
  checker, and under that text instead of its name.  The same input is accepted without
  \<^verbatim>\<open>Strict\<close>.  The example of the claim, on a string-keyed map, is the last conjunct.
\<close>

theorem StrictFieldMap_interface_keys_unknown_key:
  "map_of [(''a'', Any)] ''a'' = Some Any
   \<and> hasStrictStringKeys (VMapIface [(VString ''a'', VInt 1)]) = Returns True
   \<and> Coerce (StrictFieldMap [(''a'', Any)] []) (VMapIface [(VString ''a'', VInt 1)]) p
       = Fails (unknown_key p ''<interface {} Value>'' (VInt 1))
   \<and> Coerce (FieldMap [(''a'', Any)] []) (VMapIface [(VString ''a'', VInt 1)]) p
       = Returns (VMapStr [(''a'', VInt 1)])
   \<and> Coerce (StrictFieldMap [(''a'', Any)] []) (VMapStr [(''b'', VInt 1)]) p
       = Fails (unknown_key p ''b'' (VInt 1))"
  by (simp add: StrictFieldMap_def FieldMap_def Any_def KindOf_def hasStrictStringKeys_def field_value_def)

subsection \<open>The dispatch of FieldMapSet\<close>

lemma mapSet_loop_skip:
  "(\<forall>g \<in> set pre. \<exists>c e. map_of (Checkers g) S = Some c \<and> Coerce c sel p = Fails e) \<Longrightarrow>
   mapSet_loop S (pre @ rest) sel v p = mapSet_loop S rest sel v p"
  by (induction pre) auto

lemma mapSetC_dispatch:
  "(KindOf v = KMap \<and> MapIndex v (VString S) = Returns (Some sel)
      \<and> (\<forall>g \<in> set pre. \<exists>c e. map_of (Checkers g) S = Some c \<and> Coerce c sel p = Fails e)
      \<and> map_of (Checkers f) S = Some c \<and> Coerce c sel p = Returns w
     \<longrightarrow> Coerce (mapSetC S (pre @ f # post)) v p = Schema_Coerce f v p)
   \<and> (KindOf v = KMap \<and> MapIndex v (VString S) = Returns (Some sel)
      \<and> (\<forall>g \<in> set fmaps. \<exists>c e. map_of (Checkers g) S = Some c \<and> Coerce c sel p = Fails e)
     \<longrightarrow> Coerce (mapSetC S fmaps) v p
           = Fails (error_struct (Lit ''supported selector'') sel (p @ [''.'', S])))
   \<and> (KindOf v = KMap \<and> MapIndex v (VString S) = Returns None
     \<longrightarrow> Coerce (mapSetC S fmaps) v p
           = Fails (error_struct (Lit ''supported selector'') VNil (p @ [''.'', S])))"
  using mapSet_loop_skip [of pre S sel p "f # post" v] mapSet_loop_skip [of fmaps S sel p "[]" v]
  by auto

text \<open>
  Claim C3.  On maps with key type \<^verbatim>\<open>string\<close> or \<^verbatim>\<open>interface{}\<close> the claim holds
  (lemma above): the variants before the chosen one reject the raw selector value, the
  chosen one accepts it and coerces the whole map; with no accepting variant, or without
  the selector key, the error expects "supported selector" at the path extended by "."
  and the selector.  On a map with another key type the selector key is absent, and the
  claim promises that error; the lookup panics instead.
\<close>

theorem FieldMapSet_int_keys_panic:
  "FieldMapSet ''kind'' [FieldMap [(''kind'', Const (VString ''x''))] []]
       = Returns (mapSetC ''kind'' [Schema [(''kind'', constC (VString ''x''))] [] [] False])
   \<and> KindOf (VMapInt [(1, VInt 1)]) = KMap
   \<and> Coerce (mapSetC ''kind'' [Schema [(''kind'', constC (VString ''x''))] [] [] False])
        (VMapInt [(1, VInt 1)]) p = Panics MapIndex_not_assignable"
  by (simp add: FieldMapSet_def FieldMap_def Const_def KindOf_def)

subsection \<open>Dependency resolution\<close>

lemma dependencies_loop_None:
  "dependencies_loop deps out = None \<longleftrightarrow> (\<forall>(F, d) \<in> set deps. dependency_check out F d = None)"
  by (induction deps) (auto split: option.splits)

lemma dependencies_loop_Some:
  "dependencies_loop deps out = Some e \<Longrightarrow> \<exists>(F, d) \<in> set deps. dependency_check out F d = Some e"
  by (induction deps) (auto split: option.splits)

lemma Schema_Coerce_after_defaults:
  assumes "KindOf v = KMap" and "hasStrictStringKeys v = Returns True"
    and "(if strict then strict_loop cs p v (MapKeys v) else Returns ()) = Returns ()"
    and "fields_loop cs ds deps v p [] = Returns out1"
    and "defaults_loop ds cs v p out1 = Returns out"
  shows "Schema_Coerce (Schema cs ds deps strict) v p =
     (case dependencies_loop deps out of None \<Rightarrow> Returns (VMapStr out) | Some e \<Rightarrow> Fails e)"
  using assms by (simp del: MapKeys.simps)

text \<open>
  Claim C1.  With \<open>out\<close> the output map after the per-field loop and the default pass,
  \<^verbatim>\<open>Schema.Coerce\<close> returns \<open>out\<close> exactly when every entry of \<^verbatim>\<open>Dependencies\<close> passes
  its check on \<open>out\<close>, and otherwise fails with the error of an entry that does not.
  The check of an entry mapping \<open>F\<close> to \<open>d\<close> follows the four-way rule: neither field in
  \<open>out\<close>, fine; both there and the value of the depended-on field deeply equal to the
  required one, fine; both there and not equal, error; \<open>F\<close> there without the
  depended-on field, error; \<open>F\<close> missing while the depended-on field is there with an
  equal value, error; \<open>F\<close> missing and the value not equal, fine.  The four inputs of
  the example, for the schema \<open>dep_schema\<close>, come last.
\<close>

theorem Schema_Coerce_dependencies:
  assumes "KindOf v = KMap" and "hasStrictStringKeys v = Returns True"
    and "(if strict then strict_loop cs p v (MapKeys v) else Returns ()) = Returns ()"
    and "fields_loop cs ds deps v p [] = Returns out1"
    and "defaults_loop ds cs v p out1 = Returns out"
  shows "(Schema_Coerce (Schema cs ds deps strict) v p = Returns (VMapStr out)
            \<longleftrightarrow> (\<forall>(F, d) \<in> set deps. dependency_check out F d = None))
    \<and> (Schema_Coerce (Schema cs ds deps strict) v p = Returns (VMapStr out)
         \<or> (\<exists>F d e. (F, d) \<in> set deps \<and> dependency_check out F d = Some e
               \<and> Schema_Coerce (Schema cs ds deps strict) v p = Fails e))
    \<and> (map_of out F = None \<and> map_of out (DependsOn d) = None
         \<longrightarrow> dependency_check out F d = None)
    \<and> (map_of out F = Some x \<and> map_of out (DependsOn d) = Some a \<and> DeepEqual a (Value d)
         \<longrightarrow> dependency_check out F d = None)
    \<and> (map_of out F = Some x \<and> map_of out (DependsOn d) = Some a \<and> \<not> DeepEqual a (Value d)
         \<longrightarrow> dependency_check out F d
               = Some (should_not_be_specified F (DependsOn d) a (Value d)))
    \<and> (map_of out F = Some x \<and> map_of out (DependsOn d) = None
         \<longrightarrow> dependency_check out F d
               = Some (requires_value_specified F (Value d) (DependsOn d)))
    \<and> (map_of out F = None \<and> map_of out (DependsOn d) = Some a \<and> DeepEqual a (Value d)
         \<longrightarrow> dependency_check out F d
               = Some (required_field_missing (DependsOn d) a F))
    \<and> (map_of out F = None \<and> map_of out (DependsOn d) = Some a \<and> \<not> DeepEqual a (Value d)
         \<longrightarrow> dependency_check out F d = None)
    \<and> Schema_Coerce dep_schema (VMapStr [(''a'', VBool True), (''b'', VInt 1)]) q
         = Returns (VMapStr [(''a'', VBool True), (''b'', VInt 1)])
    \<and> Schema_Coerce dep_schema (VMapStr [(''a'', VBool False), (''b'', VInt 1)]) q
         = Fails (should_not_be_specified ''b'' ''a'' (VBool False) (VBool True))
    \<and> Schema_Coerce dep_schema (VMapStr [(''a'', VBool True)]) q
         = Fails (required_field_missing ''a'' (VBool True) ''b'')
    \<and> Schema_Coerce dep_schema (VMapStr []) q = Returns (VMapStr [(''a'', VNil)])"
proof -
  note eq = Schema_Coerce_after_defaults [OF assms]
  have 1: "Schema_Coerce (Schema cs ds deps strict) v p = Returns (VMapStr out)
            \<longleftrightarrow> (\<forall>(F, d) \<in> set deps. dependency_check out F d = None)"
    unfolding eq dependencies_loop_None [symmetric] by (simp split: option.splits)
  have 2: "Schema_Coerce (Schema cs ds deps strict) v p = Returns (VMapStr out)
         \<or> (\<exists>F d e. (F, d) \<in> set deps \<and> dependency_check out F d = Some e
               \<and> Schema_Coerce (Schema cs ds deps strict) v p = Fails e)"
  proof (cases "dependencies_loop deps out")
    case None
    then show ?thesis unfolding eq by simp
  next
    case (Some e)
    from dependencies_loop_Some [OF this] Some show ?thesis
      unfolding eq by auto
  qed
  have 3: "Schema_Coerce dep_schema (VMapStr [(''a'', VBool True), (''b'', VInt 1)]) q
         = Returns (VMapStr [(''a'', VBool True), (''b'', VInt 1)])"
    by (simp add: dep_schema_def Any_def KindOf_def hasStrictStringKeys_def field_value_def
        dependency_check_def)
  have 4: "Schema_Coerce dep_schema (VMapStr [(''a'', VBool False), (''b'', VInt 1)]) q
         = Fails (should_not_be_specified ''b'' ''a'' (VBool False) (VBool True))"
    by (simp add: dep_schema_def Any_def KindOf_def hasStrictStringKeys_def field_value_def
        dependency_check_def)
  have 5: "Schema_Coerce dep_schema (VMapStr [(''a'', VBool True)]) q
         = Fails (required_field_missing ''a'' (VBool True) ''b'')"
    by (simp add: dep_schema_def Any_def KindOf_def hasStrictStringKeys_def field_value_def
        dependency_check_def)
  have 6: "Schema_Coerce dep_schema (VMapStr []) q = Returns (VMapStr [(''a'', VNil)])"
    by (simp add: dep_schema_def Any_def KindOf_def hasStrictStringKeys_def field_value_def
        dependency_check_def)
  show ?thesis
    using 1 2 3 4 5 6 by (simp add: dependency_check_def)
qed

theorem Schema_Coerce_dependencies_witness:
  "KindOf (VMapStr [(''a'', VBool True)]) = KMap
   \<and> hasStrictStringKeys (VMapStr [(''a'', VBool True)]) = Returns True
   \<and> fields_loop [(''a'', Any), (''b'', Any)] []
        [(''b'', \<lparr>DependsOn = ''a'', Value = VBool True\<rparr>)] (VMapStr [(''a'', VBool True)]) []
        [] = Returns [(''a'', VBool True)]
   \<and> defaults_loop [] [(''a'', Any), (''b'', Any)] (VMapStr [(''a'', VBool True)]) []
        [(''a'', VBool True)] = Returns [(''a'', VBool True)]
   \<and> map_of [(''a'', VBool True)] ''b'' = None
   \<and> map_of [(''a'', VBool True)] ''a'' = Some (VBool True)
   \<and> DeepEqual (VBool True) (VBool True)
   \<and> dependency_check [(''a'', VBool True)] ''b'' \<lparr>DependsOn = ''a'', Value = VBool True\<rparr>
       = Some (required_field_missing ''a'' (VBool True) ''b'')
   \<and> Schema_Coerce (Schema [(''a'', Any), (''b'', Any)] []
        [(''b'', \<lparr>DependsOn = ''a'', Value = VBool True\<rparr>)] False) (VMapStr [(''a'', VBool True)]) []
       = Fails (required_field_missing ''a'' (VBool True) ''b'')"
proof -
  have h: "KindOf (VMapStr [(''a'', VBool True)]) = KMap"
    "hasStrictStringKeys (VMapStr [(''a'', VBool True)]) = Returns True"
    "(if False then strict_loop [(''a'', Any), (''b'', Any)] [] (VMapStr [(''a'', VBool True)])
        (MapKeys (VMapStr [(''a'', VBool True)])) else Returns ()) = Returns ()"
    "fields_loop [(''a'', Any), (''b'', Any)] []
        [(''b'', \<lparr>DependsOn = ''a'', Value = VBool True\<rparr>)] (VMapStr [(''a'', VBool True)]) []
        [] = Returns [(''a'', VBool True)]"
    "defaults_loop [] [(''a'', Any), (''b'', Any)] (VMapStr [(''a'', VBool True)]) []
        [(''a'', VBool True)] = Returns [(''a'', VBool True)]"
    by (simp_all add: KindOf_def hasStrictStringKeys_def Any_def field_value_def)
  show ?thesis
    using h Schema_Coerce_dependencies [OF h, of "''b''" "\<lparr>DependsOn = ''a'', Value = VBool True\<rparr>"
        "VInt 0" "VBool True" "[]"]
    by (simp add: dependency_check_def)
qed

subsection \<open>The output of the per-field loop\<close>

lemma fields_loop_untouched:
  "fields_loop cs ds deps v p out = Returns out' \<Longrightarrow>
   k \<notin> fst ` set cs \<or> field_value v ds deps k = Returns None \<Longrightarrow>
   map_of out' k = map_of out k"
proof (induction cs arbitrary: out)
  case Nil
  then show ?case by simp
next
  case (Cons nc cs)
  obtain name c where nc: "nc = (name, c)" by (cases nc)
  from Cons.prems(2) have k: "k \<notin> fst ` set cs \<or> field_value v ds deps k = Returns None"
    by auto
  show ?case
  proof (cases "field_value v ds deps name")
    case (Returns r)
    show ?thesis
    proof (cases r)
      case None
      with Returns Cons.prems(1) have "fields_loop cs ds deps v p out = Returns out'"
        by (simp add: nc)
      from Cons.IH [OF this k] show ?thesis .
    next
      case (Some x)
      with Returns Cons.prems(1) obtain newv where
        "fields_loop cs ds deps v p (AList.update name newv out) = Returns out'"
        by (auto simp: nc split: result.splits)
      from Cons.IH [OF this k] have "map_of out' k = map_of (AList.update name newv out) k" .
      moreover have "name \<noteq> k"
        using Cons.prems(2) Returns Some by (auto simp: nc)
      ultimately show ?thesis by (simp add: update_conv)
    qed
  next
    case (Fails e)
    with Cons.prems(1) show ?thesis by (simp add: nc)
  next
    case (Panics x)
    with Cons.prems(1) show ?thesis by (simp add: nc)
  qed
qed

lemma fields_loop_keeps:
  "fields_loop cs ds deps v p out = Returns out' \<Longrightarrow> map_of out k \<noteq> None \<Longrightarrow>
   map_of out' k \<noteq> None"
proof (induction cs arbitrary: out)
  case Nil
  then show ?case by simp
next
  case (Cons nc cs)
  obtain name c where nc: "nc = (name, c)" by (cases nc)
  from Cons.prems(1) consider
      "fields_loop cs ds deps v p out = Returns out'"
    | newv where "fields_loop cs ds deps v p (AList.update name newv out) = Returns out'"
    by (auto simp: nc split: result.splits option.splits)
  then show ?case
  proof cases
    case 1
    from Cons.IH [OF this Cons.prems(2)] show ?thesis .
  next
    case 2
    have "map_of (AList.update name newv out) k \<noteq> None"
      using Cons.prems(2) by (simp add: update_conv)
    from Cons.IH [OF 2 this] show ?thesis .
  qed
qed

lemma fields_loop_field_value:
  "fields_loop cs ds deps v p out = Returns out' \<Longrightarrow> (k, c) \<in> set cs \<Longrightarrow>
   \<exists>r. field_value v ds deps k = Returns r"
proof (induction cs arbitrary: out)
  case Nil
  then show ?case by simp
next
  case (Cons nc cs)
  obtain name c0 where nc: "nc = (name, c0)" by (cases nc)
  show ?case
  proof (cases "(k, c) = nc")
    case True
    with Cons.prems(1) show ?thesis
      by (cases "field_value v ds deps k") (auto simp: nc)
  next
    case False
    with Cons.prems(2) have in_rest: "(k, c) \<in> set cs" by simp
    from Cons.prems(1) consider
        "fields_loop cs ds deps v p out = Returns out'"
      | newv where "fields_loop cs ds deps v p (AList.update name newv out) = Returns out'"
      by (auto simp: nc split: result.splits option.splits)
    then show ?thesis
      using Cons.IH in_rest by cases blast+
  qed
qed

lemma fields_loop_sets:
  "fields_loop cs ds deps v p out = Returns out' \<Longrightarrow> distinct (map fst cs) \<Longrightarrow>
   (k, c) \<in> set cs \<Longrightarrow> field_value v ds deps k = Returns (Some x) \<Longrightarrow>
   \<exists>w. Coerce c x (p @ [''.'', k]) = Returns w \<and> map_of out' k = Some w"
proof (induction cs arbitrary: out)
  case Nil
  then show ?case by simp
next
  case (Cons nc cs)
  obtain name c0 where nc: "nc = (name, c0)" by (cases nc)
  show ?case
  proof (cases "(k, c) = nc")
    case True
    then have [simp]: "name = k" "c0 = c" by (simp_all add: nc)
    from Cons.prems(1,4) obtain w where w: "Coerce c x (p @ [''.'', k]) = Returns w"
      and rest: "fields_loop cs ds deps v p (AList.update k w out) = Returns out'"
      by (auto simp: nc split: result.splits)
    from Cons.prems(2) have "k \<notin> fst ` set cs" by (simp add: nc)
    with fields_loop_untouched [OF rest, of k]
    have "map_of out' k = map_of (AList.update k w out) k" by simp
    with w show ?thesis by (simp add: update_conv)
  next
    case False
    with Cons.prems(3) have in_rest: "(k, c) \<in> set cs" by simp
    from Cons.prems(2) have d: "distinct (map fst cs)" by simp
    from Cons.prems(1) consider
        "fields_loop cs ds deps v p out = Returns out'"
      | newv where "fields_loop cs ds deps v p (AList.update name newv out) = Returns out'"
      by (auto simp: nc split: result.splits option.splits)
    then show ?thesis
      using Cons.IH [OF _ d in_rest Cons.prems(4)] by cases blast+
  qed
qed

subsection \<open>The default pass\<close>

lemma defaults_check_Returns: "defaults_check ds cs out = Returns out' \<Longrightarrow> out' = out"
  by (induction ds) (auto split: if_splits option.splits)

lemma defaults_loop_no_coercion:
  "\<forall>(n, x) \<in> set ds. x \<noteq> VOmit \<longrightarrow> map_of cs n \<noteq> None \<longrightarrow> map_of out n \<noteq> None \<Longrightarrow>
   defaults_loop ds cs v p out = defaults_check ds cs out"
  by (induction ds) (auto split: option.splits)

lemma fields_loop_defaulted:
  assumes "fields_loop cs ds deps v p out = Returns out1" and "distinct (map fst ds)"
    and "(n, x) \<in> set ds" and "x \<noteq> VOmit" and "map_of cs n \<noteq> None"
  shows "map_of out1 n \<noteq> None"
proof -
  from assms(5) obtain c where c: "(n, c) \<in> set cs"
    by (auto dest: map_of_SomeD)
  from fields_loop_field_value [OF assms(1) c]
  obtain r where r: "field_value v ds deps n = Returns r" by blast
  have ds: "map_of ds n = Some x"
    using assms(2,3) by simp
  have "\<exists>y. field_value v ds deps n = Returns (Some y)"
  proof (cases "MapIndex v (VString n)")
    case (Returns m)
    then show ?thesis
      using ds assms(4) by (cases m) (simp_all add: field_value_def)
  next
    case (Fails e)
    with r show ?thesis by (simp add: field_value_def)
  next
    case (Panics e)
    with r show ?thesis by (simp add: field_value_def)
  qed
  then obtain y where y: "field_value v ds deps n = Returns (Some y)" by blast
  from assms(1) c y show ?thesis
  proof (induction cs arbitrary: out)
    case Nil
    then show ?case by simp
  next
    case (Cons nc cs)
    obtain name c0 where nc: "nc = (name, c0)" by (cases nc)
    show ?case
    proof (cases "name = n")
      case True
      with Cons.prems(1,3) obtain w where
        rest: "fields_loop cs ds deps v p (AList.update n w out) = Returns out1"
        by (auto simp: nc split: result.splits)
      have "map_of (AList.update n w out) n \<noteq> None" by (simp add: update_conv)
      from fields_loop_keeps [OF rest this] show ?thesis .
    next
      case False
      with Cons.prems(2) have in_rest: "(n, c) \<in> set cs" by (simp add: nc)
      from Cons.prems(1) consider
          "fields_loop cs ds deps v p out = Returns out1"
        | newv where "fields_loop cs ds deps v p (AList.update name newv out) = Returns out1"
        by (auto simp: nc split: result.splits option.splits)
      then show ?thesis
        using Cons.IH [OF _ in_rest Cons.prems(3)] by cases blast+
    qed
  qed
qed

lemma defaults_loop_after_fields:
  assumes "fields_loop cs ds deps v p out = Returns out1" and "distinct (map fst ds)"
  shows "defaults_loop ds cs v' p' out1 = defaults_check ds cs out1"
  using fields_loop_defaulted [OF assms]
  by (intro defaults_loop_no_coercion) auto

lemma Schema_Coerce_ReturnsD:
  assumes "Schema_Coerce (Schema cs ds deps strict) v p = Returns w"
  shows "\<exists>out1 out2. KindOf v = KMap \<and> hasStrictStringKeys v = Returns True
    \<and> (if strict then strict_loop cs p v (MapKeys v) else Returns ()) = Returns ()
    \<and> fields_loop cs ds deps v p [] = Returns out1
    \<and> defaults_loop ds cs v p out1 = Returns out2
    \<and> dependencies_loop deps out2 = None \<and> w = VMapStr out2"
  using assms
  by (simp del: MapKeys.simps split: if_splits result.splits bool.splits option.splits)

text \<open>
  Claim C9.  The keys of \<^verbatim>\<open>Defaults\<close>, a Go map, are distinct.  Then \<^verbatim>\<open>Schema.Coerce\<close>
  equals, on every input and path, the variant whose default pass only raises the error
  for a defaulted field without checker: a field with a checker and a default other than
  \<^verbatim>\<open>Omit\<close> is in the output once the per-field loop has returned, so the branch that
  coerces the whole input map is never reached.  When every key of \<^verbatim>\<open>Defaults\<close> has a
  checker the pass returns the output of the per-field loop as it is.
\<close>

theorem Schema_Coerce_no_backfill_eq:
  assumes "distinct (map fst (Defaults s))"
  shows "Schema_Coerce s v p = Schema_Coerce_no_backfill s v p
    \<and> ((\<forall>(n, x) \<in> set (Defaults s). map_of (Checkers s) n \<noteq> None) \<longrightarrow>
        (\<forall>out1. fields_loop (Checkers s) (Defaults s) (Dependencies s) v p [] = Returns out1 \<longrightarrow>
           defaults_loop (Defaults s) (Checkers s) v p out1 = Returns out1))"
proof
  obtain cs ds deps strict where s: "s = Schema cs ds deps strict"
    by (cases s)
  from assms have ds: "distinct (map fst ds)" by (simp add: s)
  show "Schema_Coerce s v p = Schema_Coerce_no_backfill s v p"
  proof (cases "fields_loop cs ds deps v p []")
    case (Returns out1)
    have "defaults_loop ds cs v p out1 = defaults_check ds cs out1"
      by (rule defaults_loop_after_fields [OF Returns ds])
    with Returns show ?thesis
      by (simp add: s del: MapKeys.simps split: result.split bool.split)
  next
    case (Fails e)
    then show ?thesis
      by (simp add: s del: MapKeys.simps split: result.split bool.split)
  next
    case (Panics x)
    then show ?thesis
      by (simp add: s del: MapKeys.simps split: result.split bool.split)
  qed
  have "defaults_check ds' cs out1 = Returns out1"
    if "\<forall>(n, x) \<in> set ds'. map_of cs n \<noteq> None" for ds' out1
    using that by (induction ds') (auto split: option.splits)
  then show "(\<forall>(n, x) \<in> set (Defaults s). map_of (Checkers s) n \<noteq> None) \<longrightarrow>
        (\<forall>out1. fields_loop (Checkers s) (Defaults s) (Dependencies s) v p [] = Returns out1 \<longrightarrow>
           defaults_loop (Defaults s) (Checkers s) v p out1 = Returns out1)"
    using defaults_loop_after_fields [OF _ ds, of cs deps v p "[]" _ v p]
    by (auto simp: s)
qed

theorem Schema_Coerce_no_backfill_eq_witness:
  "distinct (map fst (Defaults (Schema [(''a'', Any), (''b'', Any)] [(''a'', VInt 5)] [] False)))
   \<and> Schema_Coerce (Schema [(''a'', Any), (''b'', Any)] [(''a'', VInt 5)] [] False)
        (VMapStr [(''b'', VInt 1)]) []
       = Returns (VMapStr [(''a'', VInt 5), (''b'', VInt 1)])
   \<and> Schema_Coerce_no_backfill (Schema [(''a'', Any), (''b'', Any)] [(''a'', VInt 5)] [] False)
        (VMapStr [(''b'', VInt 1)]) []
       = Returns (VMapStr [(''a'', VInt 5), (''b'', VInt 1)])
   \<and> fields_loop [(''a'', Any), (''b'', Any)] [(''a'', VInt 5)] [] (VMapStr [(''b'', VInt 1)]) [] []
       = Returns [(''a'', VInt 5), (''b'', VInt 1)]
   \<and> defaults_loop [(''a'', VInt 5)] [(''a'', Any), (''b'', Any)] (VMapStr [(''b'', VInt 1)]) []
        [(''a'', VInt 5), (''b'', VInt 1)]
       = Returns [(''a'', VInt 5), (''b'', VInt 1)]"
  using Schema_Coerce_no_backfill_eq [of "Schema [(''a'', Any), (''b'', Any)] [(''a'', VInt 5)] [] False"
      "VMapStr [(''b'', VInt 1)]" "[]"]
  by (simp add: Any_def KindOf_def hasStrictStringKeys_def field_value_def)

subsection \<open>Defaults of absent fields\<close>

text \<open>
  Claim C2.  Let \<open>F\<close> have the checker \<open>c\<close> and be absent from the input (the keys
  of \<^verbatim>\<open>Checkers\<close> and of \<^verbatim>\<open>Defaults\<close> are distinct, as in Go maps).  If its default is
  \<^verbatim>\<open>Omit\<close>, the output has no key \<open>F\<close>.  If its default is another value \<open>d\<close>, then \<open>d\<close>
  goes through \<open>c\<close> at the path of the field, as a value present in the input would, the
  output holds the result under \<open>F\<close>, and a failure of \<open>c\<close> on \<open>d\<close> means that
  \<^verbatim>\<open>Coerce\<close> returns no value.  With a checker for "a" that returns 5 on 5 and the
  default 5, the input \<^verbatim>\<open>{}\<close> gives \<^verbatim>\<open>{"a": 5}\<close>; with the default \<^verbatim>\<open>Omit\<close> it gives
  \<^verbatim>\<open>{}\<close>.
\<close>

theorem Schema_Coerce_absent_field_default:
  assumes "distinct (map fst cs)" and "distinct (map fst ds)"
    and "map_of cs F = Some c" and "\<forall>x. MapIndex v (VString F) \<noteq> Returns (Some x)"
  shows "(map_of ds F = Some VOmit \<and> Schema_Coerce (Schema cs ds deps strict) v p = Returns w
            \<longrightarrow> (\<exists>out. w = VMapStr out \<and> map_of out F = None))
     \<and> (map_of ds F = Some d \<and> d \<noteq> VOmit
          \<and> Schema_Coerce (Schema cs ds deps strict) v p = Returns w
            \<longrightarrow> (\<exists>out x. w = VMapStr out \<and> Coerce c d (p @ [''.'', F]) = Returns x
                   \<and> map_of out F = Some x))
     \<and> (map_of ds F = Some d \<and> d \<noteq> VOmit \<and> Coerce c d (p @ [''.'', F]) = Fails e
            \<longrightarrow> (\<forall>w'. Schema_Coerce (Schema cs ds deps strict) v p \<noteq> Returns w'))
     \<and> (Coerce ic (VInt 5) (q @ [''.'', ''a'']) = Returns (VInt 5)
            \<longrightarrow> Coerce (FieldMap [(''a'', ic)] [(''a'', VInt 5)]) (VMapStr []) q
                  = Returns (VMapStr [(''a'', VInt 5)]))
     \<and> Coerce (FieldMap [(''a'', ic)] [(''a'', Omit)]) (VMapStr []) q = Returns (VMapStr [])"
proof -
  have out: "\<exists>out. w' = VMapStr out \<and> fields_loop cs ds deps v p [] = Returns out
      \<and> MapIndex v (VString F) = Returns None"
    if "Schema_Coerce (Schema cs ds deps strict) v p = Returns w'" for w'
  proof -
    from Schema_Coerce_ReturnsD [OF that] obtain out1 out2 where
      f: "fields_loop cs ds deps v p [] = Returns out1"
      and d: "defaults_loop ds cs v p out1 = Returns out2" and w: "w' = VMapStr out2"
      and shape: "KindOf v = KMap" "hasStrictStringKeys v = Returns True"
      by blast
    from d defaults_loop_after_fields [OF f assms(2), of v p]
    have "out2 = out1" by (simp add: defaults_check_Returns)
    moreover from shape have "\<exists>r. MapIndex v (VString F) = Returns r"
      by (cases v) (simp_all add: KindOf_def hasStrictStringKeys_def)
    with assms(4) have "MapIndex v (VString F) = Returns None"
      by (metis option.exhaust)
    ultimately show ?thesis using f w by simp
  qed
  have mem: "(F, c) \<in> set cs"
    using assms(3) by (rule map_of_SomeD)
  have 1: "\<exists>out. w = VMapStr out \<and> map_of out F = None"
    if "map_of ds F = Some VOmit" "Schema_Coerce (Schema cs ds deps strict) v p = Returns w"
  proof -
    from out [OF that(2)] obtain out1 where
      w: "w = VMapStr out1" and f: "fields_loop cs ds deps v p [] = Returns out1"
      and absent: "MapIndex v (VString F) = Returns None" by blast
    have "field_value v ds deps F = Returns None"
      using absent that(1) by (simp add: field_value_def)
    with fields_loop_untouched [OF f, of F] w show ?thesis by simp
  qed
  have 2: "\<exists>out x. w' = VMapStr out \<and> Coerce c d (p @ [''.'', F]) = Returns x
                   \<and> map_of out F = Some x"
    if "map_of ds F = Some d" "d \<noteq> VOmit"
      "Schema_Coerce (Schema cs ds deps strict) v p = Returns w'" for w'
  proof -
    from out [OF that(3)] obtain out1 where
      w: "w' = VMapStr out1" and f: "fields_loop cs ds deps v p [] = Returns out1"
      and absent: "MapIndex v (VString F) = Returns None" by blast
    have "field_value v ds deps F = Returns (Some d)"
      using absent that(1,2) by (simp add: field_value_def)
    from fields_loop_sets [OF f assms(1) mem this] w show ?thesis by blast
  qed
  have 3: "\<forall>w'. Schema_Coerce (Schema cs ds deps strict) v p \<noteq> Returns w'"
    if "map_of ds F = Some d" "d \<noteq> VOmit" "Coerce c d (p @ [''.'', F]) = Fails e"
  proof (intro allI notI)
    fix w'
    assume "Schema_Coerce (Schema cs ds deps strict) v p = Returns w'"
    from 2 [OF that(1,2) this] that(3) show False by auto
  qed
  have 4: "Coerce (FieldMap [(''a'', ic)] [(''a'', VInt 5)]) (VMapStr []) q
                  = Returns (VMapStr [(''a'', VInt 5)])"
    if "Coerce ic (VInt 5) (q @ [''.'', ''a'']) = Returns (VInt 5)"
    using that by (simp add: FieldMap_def KindOf_def hasStrictStringKeys_def field_value_def)
  have 5: "Coerce (FieldMap [(''a'', ic)] [(''a'', Omit)]) (VMapStr []) q = Returns (VMapStr [])"
    by (simp add: FieldMap_def Omit_def KindOf_def hasStrictStringKeys_def field_value_def)
  show ?thesis
    using 1 2 3 4 5 by blast
qed

theorem Schema_Coerce_absent_field_default_witness:
  "distinct (map fst [(''a'', Const (VInt 5)), (''b'', Any)])
   \<and> distinct (map fst [(''a'', VInt 5), (''b'', VOmit)])
   \<and> map_of [(''a'', Const (VInt 5)), (''b'', Any)] ''a'' = Some (Const (VInt 5))
   \<and> MapIndex (VMapStr []) (VString ''a'') = Returns None
   \<and> map_of [(''a'', VInt 5), (''b'', VOmit)] ''a'' = Some (VInt 5)
   \<and> VInt 5 \<noteq> VOmit
   \<and> Schema_Coerce (Schema [(''a'', Const (VInt 5)), (''b'', Any)] [(''a'', VInt 5), (''b'', VOmit)]
        [] False) (VMapStr []) [] = Returns (VMapStr [(''a'', VInt 5)])
   \<and> Coerce (Const (VInt 5)) (VInt 5) ([] @ [''.'', ''a'']) = Returns (VInt 5)
   \<and> Coerce (Const (VInt 5)) (VInt 5) ([''p''] @ [''.'', ''a'']) = Returns (VInt 5)
   \<and> Coerce (FieldMap [(''a'', Const (VInt 5))] [(''a'', VInt 5)]) (VMapStr []) [''p'']
       = Returns (VMapStr [(''a'', VInt 5)])"
  using Schema_Coerce_absent_field_default [of "[(''a'', Const (VInt 5)), (''b'', Any)]"
      "[(''a'', VInt 5), (''b'', VOmit)]" "''a''" "Const (VInt 5)" "VMapStr []" "[]" False
      "[]" "VMapStr [(''a'', VInt 5)]" "VInt 5" "unknown_default_field []" "Const (VInt 5)" "[''p'']"]
  by (simp add: Const_def Any_def KindOf_def hasStrictStringKeys_def field_value_def FieldMap_def)

subsection \<open>Idempotence\<close>

text \<open>
  Claim C7, as stated, fails.  \<^verbatim>\<open>OneOf\<close> of a strict and a lax field map: the input with
  an unknown key "b" is rejected by the strict alternative and coerced by the lax one,
  which drops "b"; the output is then accepted by the strict alternative, which adds its
  default for "c".  Coercing the output again gives another map.
\<close>

theorem OneOf_not_idempotent_counterexample:
  "Coerce (OneOf [StrictFieldMap [(''a'', Any), (''c'', Any)] [(''c'', VInt 1)],
                  FieldMap [(''a'', Any)] []])
      (VMapStr [(''a'', VInt 2), (''b'', VInt 3)]) []
     = Returns (VMapStr [(''a'', VInt 2)])
   \<and> Coerce (OneOf [StrictFieldMap [(''a'', Any), (''c'', Any)] [(''c'', VInt 1)],
                    FieldMap [(''a'', Any)] []])
      (VMapStr [(''a'', VInt 2)]) []
     = Returns (VMapStr [(''a'', VInt 2), (''c'', VInt 1)])
   \<and> \<not> DeepEqual (VMapStr [(''a'', VInt 2), (''c'', VInt 1)]) (VMapStr [(''a'', VInt 2)])"
  by (simp add: OneOf_def StrictFieldMap_def FieldMap_def Any_def KindOf_def
      hasStrictStringKeys_def field_value_def)

lemma oneOf_loop_passes_through:
  "(\<And>c v p w. c \<in> set opts \<Longrightarrow> Coerce c v p = Returns w \<Longrightarrow> w = v) \<Longrightarrow>
   oneOf_loop opts v p = Returns w \<Longrightarrow> w = v"
proof (induction opts)
  case Nil
  then show ?case by simp
next
  case (Cons c opts)
  show ?case
  proof (cases "Coerce c v p")
    case (Returns x)
    with Cons.prems(2) have "x = w" by simp
    with Returns Cons.prems(1) [of c v p w] show ?thesis by simp
  next
    case (Fails e)
    with Cons.prems(2) have "oneOf_loop opts v p = Returns w" by simp
    with Cons.IH Cons.prems(1) show ?thesis by auto
  next
    case (Panics x)
    with Cons.prems(2) show ?thesis by simp
  qed
qed

lemma Coerce_passes_through:
  "passes_through c \<Longrightarrow> Coerce c v p = Returns w \<Longrightarrow> w = v"
proof (induction c arbitrary: v p w rule: passes_through.induct)
  case (4 options)
  have "oneOf_loop options v p = Returns w"
    using "4.prems"(2) by simp
  moreover have "w' = v'" if "c \<in> set options" "Coerce c v' p' = Returns w'" for c v' p' w'
    using "4.IH" [OF that(1) _ that(2)] "4.prems"(1) that(1) by simp
  ultimately show ?case
    by (rule oneOf_loop_passes_through [rotated])
qed (auto split: if_splits)

lemma mapSet_loop_ReturnsD:
  "mapSet_loop S fmaps sel v p = Returns w \<Longrightarrow>
   \<exists>f \<in> set fmaps. \<exists>c. map_of (Checkers f) S = Some c \<and> Schema_Coerce f v p = Returns w"
  by (induction fmaps) (auto split: option.splits result.splits)

lemma Schema_Coerce_Returns_fields:
  assumes "Schema_Coerce (Schema cs ds deps strict) v p = Returns w"
    and "distinct (map fst ds)"
  shows "\<exists>out. w = VMapStr out \<and> fields_loop cs ds deps v p [] = Returns out
     \<and> defaults_check ds cs out = Returns out \<and> dependencies_loop deps out = None"
proof -
  from Schema_Coerce_ReturnsD [OF assms(1)] obtain out1 out2 where
    f: "fields_loop cs ds deps v p [] = Returns out1"
    and d: "defaults_loop ds cs v p out1 = Returns out2" and w: "w = VMapStr out2"
    and deps: "dependencies_loop deps out2 = None"
    by blast
  from d defaults_loop_after_fields [OF f assms(2), of v p]
  have c: "defaults_check ds cs out1 = Returns out2" by simp
  then have "out2 = out1" by (rule defaults_check_Returns)
  with f w c deps show ?thesis by simp
qed

lemma fields_loop_again:
  assumes "\<And>n c x w. (n, c) \<in> set cs \<Longrightarrow> Coerce c x (p @ [''.'', n]) = Returns w
      \<Longrightarrow> Coerce c w (p @ [''.'', n]) = Returns w"
    and "distinct (map fst cs)"
    and "\<forall>n \<in> fst ` set cs. map_of out n = None"
    and "fields_loop cs ds deps v p out = Returns out'"
    and "\<forall>n \<in> fst ` set cs. map_of m n = map_of out' n"
  shows "fields_loop cs ds deps (VMapStr m) p out = Returns out'"
  using assms
proof (induction cs arbitrary: out)
  case Nil
  then show ?case by simp
next
  case (Cons nc cs)
  obtain name c where nc: "nc = (name, c)" by (cases nc)
  have idem: "\<And>n c x w. (n, c) \<in> set cs \<Longrightarrow> Coerce c x (p @ [''.'', n]) = Returns w
      \<Longrightarrow> Coerce c w (p @ [''.'', n]) = Returns w"
    using Cons.prems(1) by auto
  from Cons.prems(2) have dist: "distinct (map fst cs)" and fresh: "name \<notin> fst ` set cs"
    by (simp_all add: nc)
  from Cons.prems(5) have agree: "\<forall>n \<in> fst ` set cs. map_of m n = map_of out' n"
    and m: "map_of m name = map_of out' name"
    by (simp_all add: nc)
  from Cons.prems(3) have out: "\<forall>n \<in> fst ` set cs. map_of out n = None"
    and out_name: "map_of out name = None"
    by (simp_all add: nc)
  show ?case
  proof (cases "field_value v ds deps name")
    case (Returns r)
    show ?thesis
    proof (cases r)
      case None
      with Returns Cons.prems(4) have rest: "fields_loop cs ds deps v p out = Returns out'"
        by (simp add: nc)
      from fields_loop_untouched [OF rest, of name] fresh out_name m
      have "map_of m name = None" by simp
      with Returns None have "field_value (VMapStr m) ds deps name = Returns None"
        by (auto simp: field_value_def split: result.splits option.splits if_splits)
      moreover have "fields_loop cs ds deps (VMapStr m) p out = Returns out'"
        by (rule Cons.IH [OF idem dist out rest agree])
      ultimately show ?thesis by (simp add: nc)
    next
      case (Some x)
      with Returns Cons.prems(4) obtain newv where
        newv: "Coerce c x (p @ [''.'', name]) = Returns newv"
        and rest: "fields_loop cs ds deps v p (AList.update name newv out) = Returns out'"
        by (auto simp: nc split: result.splits)
      from fields_loop_untouched [OF rest, of name] fresh m
      have "map_of m name = Some newv" by (simp add: update_conv)
      then have fv: "field_value (VMapStr m) ds deps name = Returns (Some newv)"
        by (simp add: field_value_def)
      have again: "Coerce c newv (p @ [''.'', name]) = Returns newv"
        using Cons.prems(1) [of name c x newv] newv by (simp add: nc)
      have out': "\<forall>n \<in> fst ` set cs. map_of (AList.update name newv out) n = None"
        using out fresh by (auto simp: update_conv)
      have "fields_loop cs ds deps (VMapStr m) p (AList.update name newv out) = Returns out'"
        by (rule Cons.IH [OF idem dist out' rest agree])
      with fv again show ?thesis by (simp add: nc)
    qed
  next
    case (Fails e)
    with Cons.prems(4) show ?thesis by (simp add: nc)
  next
    case (Panics x)
    with Cons.prems(4) show ?thesis by (simp add: nc)
  qed
qed

lemma mapSet_loop_again:
  "(\<And>f. f \<in> set fmaps \<Longrightarrow> Schema_Coerce f v p = Returns w \<Longrightarrow> Schema_Coerce f w p = Returns w)
   \<Longrightarrow> mapSet_loop S fmaps sel v p = Returns w \<Longrightarrow> mapSet_loop S fmaps sel w p = Returns w"
  by (induction fmaps) (auto split: option.splits result.splits)

lemma Schema_Coerce_selector_kept:
  assumes "Schema_Coerce f v p = Returns w" and "stable_schema f"
    and "map_of (Checkers f) S = Some c" and "passes_through c"
    and "MapIndex v (VString S) = Returns (Some sel)"
  shows "KindOf w = KMap \<and> MapIndex w (VString S) = Returns (Some sel)"
proof -
  obtain cs ds deps strict where f: "f = Schema cs ds deps strict"
    by (cases f)
  from assms(2) have dcs: "distinct (map fst cs)" and dds: "distinct (map fst ds)"
    by (simp_all add: f)
  from Schema_Coerce_Returns_fields [OF assms(1) [unfolded f] dds] obtain out where
    w: "w = VMapStr out" and fl: "fields_loop cs ds deps v p [] = Returns out"
    by blast
  have mem: "(S, c) \<in> set cs"
    using assms(3) by (auto simp: f dest: map_of_SomeD)
  have "field_value v ds deps S = Returns (Some sel)"
    using assms(5) by (simp add: field_value_def)
  from fields_loop_sets [OF fl dcs mem this] obtain x where
    "Coerce c sel (p @ [''.'', S]) = Returns x" "map_of out S = Some x"
    by blast
  with Coerce_passes_through [OF assms(4)] have "map_of out S = Some sel"
    by blast
  then show ?thesis by (simp add: w KindOf_def)
qed

lemma stable_idempotent:
  "stable c \<Longrightarrow> Coerce c v p = Returns w \<Longrightarrow> Coerce c w p = Returns w"
  and "stable_schema s \<Longrightarrow> Schema_Coerce s v p = Returns w \<Longrightarrow> Schema_Coerce s w p = Returns w"
proof (induction c and s arbitrary: v p w and v p w rule: stable_stable_schema.induct)
  case 1
  then show ?case by simp
next
  case (2 c)
  then show ?case by (simp split: if_splits)
next
  case (3 l)
  then show ?case by (simp split: if_splits)
next
  case (4 options)
  then have "passes_through (oneOfC options)" by simp
  from Coerce_passes_through [OF this "4.prems"(2)] "4.prems"(2) show ?case by simp
next
  case (5 s)
  then show ?case by simp
next
  case (6 selector fmaps)
  from "6.prems"(2) obtain sel where
    kind: "KindOf v = KMap" and idx: "MapIndex v (VString selector) = Returns (Some sel)"
    and loop: "mapSet_loop selector fmaps sel v p = Returns w"
    by (auto split: if_splits result.splits option.splits)
  have "mapSet_loop selector fmaps sel w p = Returns w"
  proof (rule mapSet_loop_again [OF _ loop])
    fix f assume "f \<in> set fmaps" "Schema_Coerce f v p = Returns w"
    with "6.IH" [of f v p w] "6.prems"(1) show "Schema_Coerce f w p = Returns w"
      by auto
  qed
  moreover from mapSet_loop_ReturnsD [OF loop] obtain f c where
    f: "f \<in> set fmaps" "map_of (Checkers f) selector = Some c" "Schema_Coerce f v p = Returns w"
    by blast
  with "6.prems"(1) have "stable_schema f" "passes_through c"
    by auto
  from Schema_Coerce_selector_kept [OF f(3) this(1) f(2) this(2) idx]
  have "KindOf w = KMap" "MapIndex w (VString selector) = Returns (Some sel)"
    by simp_all
  ultimately show ?case by simp
next
  case (7 f)
  then show ?case by simp
next
  case (8 cs ds deps strict)
  from "8.prems"(1) have dcs: "distinct (map fst cs)" and dds: "distinct (map fst ds)"
    and st: "\<forall>(n, c) \<in> set cs. stable c"
    by simp_all
  from Schema_Coerce_Returns_fields [OF "8.prems"(2) dds] obtain out where
    w: "w = VMapStr out" and fl: "fields_loop cs ds deps v p [] = Returns out"
    and dc: "defaults_check ds cs out = Returns out" and dl: "dependencies_loop deps out = None"
    by blast
  have again: "fields_loop cs ds deps (VMapStr out) p [] = Returns out"
  proof (rule fields_loop_again [OF _ dcs _ fl])
    fix n c x w'
    assume mem: "(n, c) \<in> set cs" and co: "Coerce c x (p @ [''.'', n]) = Returns w'"
    from st mem have "stable c" by auto
    from "8.IH" [OF mem refl this co]
    show "Coerce c w' (p @ [''.'', n]) = Returns w'" .
  qed simp_all
  have keys: "\<forall>k \<in> set (map fst out). map_of cs k \<noteq> None"
  proof
    fix k assume "k \<in> set (map fst out)"
    then have "map_of out k \<noteq> None" by (simp add: map_of_eq_None_iff)
    with fields_loop_untouched [OF fl, of k] have "k \<in> fst ` set cs" by auto
    then show "map_of cs k \<noteq> None" by (simp add: map_of_eq_None_iff)
  qed
  have strict: "(if strict then strict_loop cs p (VMapStr out) (MapKeys (VMapStr out))
      else Returns ()) = Returns ()"
    using strict_loop_known_keys [OF keys] by (simp add: MapKeys_VMapStr del: MapKeys.simps)
  have dflt: "defaults_loop ds cs (VMapStr out) p out = Returns out"
    using defaults_loop_after_fields [OF fl dds, of "VMapStr out" p] dc by simp
  have "Schema_Coerce (Schema cs ds deps strict) (VMapStr out) p =
     (case dependencies_loop deps out of None \<Rightarrow> Returns (VMapStr out) | Some e \<Rightarrow> Fails e)"
    by (rule Schema_Coerce_after_defaults [OF _ _ strict again dflt])
      (simp_all add: KindOf_def hasStrictStringKeys_def)
  with dl w show ?case by simp
qed


text \<open>
  Claim C7, amended.  Coercion is idempotent for every stable checker: a tree built from
  \<^verbatim>\<open>Any\<close>, \<^verbatim>\<open>Const\<close>, \<^verbatim>\<open>Empty\<close> and field maps, with \<^verbatim>\<open>OneOf\<close> only over alternatives
  built from \<^verbatim>\<open>Any\<close>, \<^verbatim>\<open>Const\<close>, \<^verbatim>\<open>Empty\<close> and \<^verbatim>\<open>OneOf\<close>, and \<^verbatim>\<open>FieldMapSet\<close> only with
  such checkers for the selector.  If \<^verbatim>\<open>Coerce(v, p)\<close> returns \<open>w\<close>, then
  \<^verbatim>\<open>Coerce(w, p)\<close> returns \<open>w\<close>.
\<close>

theorem Coerce_idempotent_stable:
  "stable c \<Longrightarrow> Coerce c v p = Returns w \<Longrightarrow> Coerce c w p = Returns w"
  by (rule stable_idempotent(1))

theorem Coerce_idempotent_stable_witness:
  "stable (mapSetC ''kind''
      [Schema [(''kind'', constC (VString ''x'')), (''n'', anyC)] [(''n'', VInt 5)] [] True,
       Schema [(''kind'', oneOfC [constC (VString ''y''), emptyC ''kind'']),
               (''m'', SchemaC (Schema [(''a'', anyC)] [(''a'', VOmit)] [] False))] [] [] False])
   \<and> Coerce (mapSetC ''kind''
      [Schema [(''kind'', constC (VString ''x'')), (''n'', anyC)] [(''n'', VInt 5)] [] True,
       Schema [(''kind'', oneOfC [constC (VString ''y''), emptyC ''kind'']),
               (''m'', SchemaC (Schema [(''a'', anyC)] [(''a'', VOmit)] [] False))] [] [] False])
      (VMapIface [(VString ''kind'', VString ''y''), (VString ''m'', VMapStr [(''b'', VInt 1)]),
                  (VString ''z'', VNil)]) [''p'']
     = Returns (VMapStr [(''kind'', VString ''y''), (''m'', VMapStr [])])
   \<and> Coerce (mapSetC ''kind''
      [Schema [(''kind'', constC (VString ''x'')), (''n'', anyC)] [(''n'', VInt 5)] [] True,
       Schema [(''kind'', oneOfC [constC (VString ''y''), emptyC ''kind'']),
               (''m'', SchemaC (Schema [(''a'', anyC)] [(''a'', VOmit)] [] False))] [] [] False])
      (VMapStr [(''kind'', VString ''y''), (''m'', VMapStr [])]) [''p'']
     = Returns (VMapStr [(''kind'', VString ''y''), (''m'', VMapStr [])])"
  using Coerce_idempotent_stable [of "mapSetC ''kind''
      [Schema [(''kind'', constC (VString ''x'')), (''n'', anyC)] [(''n'', VInt 5)] [] True,
       Schema [(''kind'', oneOfC [constC (VString ''y''), emptyC ''kind'']),
               (''m'', SchemaC (Schema [(''a'', anyC)] [(''a'', VOmit)] [] False))] [] [] False]"
      "VMapIface [(VString ''kind'', VString ''y''), (VString ''m'', VMapStr [(''b'', VInt 1)]),
                  (VString ''z'', VNil)]" "[''p'']"
      "VMapStr [(''kind'', VString ''y''), (''m'', VMapStr [])]"]
  by (simp add: KindOf_def hasStrictStringKeys_def field_value_def)

end
